theory Spec2Isabelle
  imports Main "HOL-Library.Char_ord" "HOL-Library.List_Lexorder" "HOL-Library.Product_Lexorder"
begin

section \<open>Data model of rcv.py\<close>

text \<open>
  A ballot is a tuple of strings, a tally a dictionary from ballots to counts.
  A Python dictionary keeps its keys in insertion order, and \<open>rcv_round\<close> reads that
  order (\<open>list(d.keys())[0]\<close>, \<open>for choice in d\<close>), so a dictionary is an association
  list in insertion order whose keys are distinct. Counts are Python integers.
\<close>

type_synonym choice = string
type_synonym ballot = "choice list"
type_synonym tally = "(ballot \<times> int) list"

definition undervote :: choice where
  "undervote = ''undervote''"

definition overvote :: choice where
  "overvote = ''overvote''"

text \<open>\<open>d[k] = d[k] + v if k in d.keys() else v\<close>: an existing key keeps its place,
  a new key goes to the end.\<close>

fun dict_add :: "('k \<times> int) list \<Rightarrow> 'k \<Rightarrow> int \<Rightarrow> ('k \<times> int) list" where
  "dict_add [] k v = [(k, v)]"
| "dict_add ((k', v') # d) k v =
     (if k' = k then (k', v' + v) # d else (k', v') # dict_add d k v)"

text \<open>\<open>d[k] = v\<close>: an existing key keeps its place and is bound to \<open>v\<close>.\<close>

fun dict_set :: "('k \<times> 'v) list \<Rightarrow> 'k \<Rightarrow> 'v \<Rightarrow> ('k \<times> 'v) list" where
  "dict_set [] k v = [(k, v)]"
| "dict_set ((k', v') # d) k v =
     (if k' = k then (k', v) # d else (k', v') # dict_set d k v)"

text \<open>Equality of two dictionaries in Python compares them as mappings, whatever the
  insertion order.\<close>

definition dict_eq :: "('k \<times> 'v) list \<Rightarrow> ('k \<times> 'v) list \<Rightarrow> bool" where
  "dict_eq d1 d2 = (set d1 = set d2)"

section \<open>The ballot normalizer\<close>

text \<open>The inner loop of \<open>delete_double_undervotes\<close>: \<open>double_uv_at\<close> starts at
  \<open>len(ballot)\<close> and \<open>i\<close> runs over \<open>range(len(ballot)-1)\<close>.\<close>

definition double_uv_step :: "ballot \<Rightarrow> nat \<Rightarrow> nat \<Rightarrow> nat" where
  "double_uv_step ballot i double_uv_at =
     (if ballot ! i = undervote \<and> ballot ! (i + 1) = undervote
         \<and> double_uv_at = length ballot
      then i else double_uv_at)"

definition double_uv_at :: "ballot \<Rightarrow> nat" where
  "double_uv_at ballot =
     fold (double_uv_step ballot) [0 ..< length ballot - 1] (length ballot)"

definition delete_double_undervotes :: "tally \<Rightarrow> tally" where
  "delete_double_undervotes tally =
     fold (\<lambda>(ballot, ballot_tally) new_tally.
             dict_add new_tally (take (double_uv_at ballot) ballot) ballot_tally)
          tally []"

text \<open>The inner loop of \<open>delete_name\<close>, with \<open>new_ballot\<close> as the accumulator;
  \<open>break\<close> returns what has been collected.\<close>

fun delete_name_loop :: "choice \<Rightarrow> bool \<Rightarrow> ballot \<Rightarrow> ballot \<Rightarrow> ballot" where
  "delete_name_loop name delete_following [] new_ballot = new_ballot"
| "delete_name_loop name delete_following (c # cs) new_ballot =
     (if c \<noteq> name then delete_name_loop name delete_following cs (new_ballot @ [c])
      else if delete_following then new_ballot
      else delete_name_loop name delete_following cs new_ballot)"

definition delete_name_ballot :: "choice \<Rightarrow> bool \<Rightarrow> ballot \<Rightarrow> ballot" where
  "delete_name_ballot name delete_following ballot =
     (if name \<in> set ballot then delete_name_loop name delete_following ballot []
      else ballot)"

definition delete_name :: "tally \<Rightarrow> choice \<Rightarrow> bool \<Rightarrow> tally" where
  "delete_name tally name delete_following =
     fold (\<lambda>(ballot, ballot_tally) new_tally.
             dict_add new_tally (delete_name_ballot name delete_following ballot) ballot_tally)
          tally []"

definition delete_undervotes :: "tally \<Rightarrow> tally" where
  "delete_undervotes tally =
     (let tally = delete_double_undervotes tally;
          tally = delete_name tally undervote False
      in tally)"

definition delete_overvotes :: "tally \<Rightarrow> tally" where
  "delete_overvotes tally = delete_name tally overvote True"

definition clean :: "tally \<Rightarrow> tally" where
  "clean tally =
     (let tally = delete_overvotes tally;
          tally = delete_undervotes tally
      in tally)"

section \<open>The round engine\<close>

definition count_first_choices :: "tally \<Rightarrow> (choice \<times> int) list" where
  "count_first_choices tally =
     fold (\<lambda>(ballot, count) d.
             case ballot of [] \<Rightarrow> d
             | first_choice # _ \<Rightarrow> dict_add d first_choice count)
          tally []"

text \<open>\<open>tie_breaker.index(name)\<close>, the first position of \<open>name\<close>; only called when
  \<open>name in tie_breaker\<close>.\<close>

fun list_index :: "'a list \<Rightarrow> 'a \<Rightarrow> nat" where
  "list_index [] x = 0"
| "list_index (y # ys) x = (if y = x then 0 else Suc (list_index ys x))"

definition tie_breaker_index :: "choice list \<Rightarrow> choice \<Rightarrow> int" where
  "tie_breaker_index tie_breaker name =
     (if name \<in> set tie_breaker then int (list_index tie_breaker name)
      else int (length tie_breaker))"

text \<open>The failed assertion \<open>len(d)>0\<close> of \<open>rcv_round\<close> is the error the specification
  calls ExhaustedBallotsError; \<open>ValueError\<close> is the failed unpacking of a split token
  in \<open>IRV\<close>.\<close>

datatype error = AssertionError string | ValueError

definition ExhaustedBallotsError :: error where
  "ExhaustedBallotsError = AssertionError ''Error: all candidates eliminated!!''"

text \<open>The two shapes of the tuple \<open>rcv_round\<close> returns: \<open>(w, d, None, None)\<close> is
  \<open>Winner w d\<close> and \<open>(None, d, e, LL)\<close> is \<open>Elimination d e LL\<close>.\<close>

datatype round_outcome =
  Winner choice "(choice \<times> int) list"
| Elimination "(choice \<times> int) list" choice tally

text \<open>\<open>E\<close> is a list of triples \<open>(d[k], -tie_breaker_index(tie_breaker, k), k)\<close>;
  Python orders tuples lexicographically, and strings lexicographically by character.\<close>

definition rcv_round :: "tally \<Rightarrow> choice list \<Rightarrow> error + round_outcome" where
  "rcv_round tally tie_breaker =
     (let d = count_first_choices tally in
      if \<not> length d > 0 then Inl ExhaustedBallotsError
      else if length d = 1 then Inr (Winner (fst (hd d)) d)
      else
        let total_first_choices = sum_list (map snd d) in
        case find (\<lambda>(choice, c). c = total_first_choices) d of
          Some (w, c) \<Rightarrow> Inr (Winner w d)
        | None \<Rightarrow>
            let E = map (\<lambda>(k, c). (c, - tie_breaker_index tie_breaker k, k)) d;
                E = sort E;
                e = snd (snd (hd E));
                LL = delete_name tally e False
            in Inr (Elimination d e LL))"

section \<open>The winner driver\<close>

text \<open>The \<open>while True\<close> loop of \<open>rcv_winner\<close>, with the tally and \<open>round_number\<close>
  as its state; the result carries the number of the last round. Printing has no
  effect on the result and is left out.\<close>

definition choices :: "tally \<Rightarrow> choice set" where
  "choices tally = (\<Union>ballot \<in> fst ` set tally. set ballot)"

function rcv_winner_loop :: "tally \<Rightarrow> choice list \<Rightarrow> nat \<Rightarrow> (error + choice) \<times> nat" where
  "rcv_winner_loop tally tie_breaker round_number =
     (case rcv_round tally tie_breaker of
        Inl err \<Rightarrow> (Inl err, round_number + 1)
      | Inr (Winner w d) \<Rightarrow> (Inr w, round_number + 1)
      | Inr (Elimination d e LL) \<Rightarrow>
          rcv_winner_loop (delete_name LL e False) tie_breaker (round_number + 1))"
  by pat_completeness auto


definition rcv_winner :: "tally \<Rightarrow> choice list \<Rightarrow> error + choice" where
  "rcv_winner tally tie_breaker = fst (rcv_winner_loop tally tie_breaker 0)"

section \<open>Tally and ballot-list conversion\<close>

text \<open>\<open>[ballot] * n\<close> is the empty list when \<open>n\<close> is zero or negative.\<close>

definition convert_tally_to_ballots :: "tally \<Rightarrow> ballot list" where
  "convert_tally_to_ballots tally =
     fold (\<lambda>(ballot, count) ballots. ballots @ replicate (nat count) ballot) tally []"

definition convert_ballots_to_tally :: "ballot list \<Rightarrow> tally" where
  "convert_ballots_to_tally ballots =
     fold (\<lambda>ballot tally. dict_add tally ballot 1) ballots []"

section \<open>The rank-token adapter of outcomes.py\<close>

text \<open>\<open>s.split(sep)\<close> for a separator of one character: the pieces between the
  occurrences of the separator, so one piece more than there are separators.\<close>

fun split_loop :: "char \<Rightarrow> string \<Rightarrow> string \<Rightarrow> string list" where
  "split_loop sep cur [] = [cur]"
| "split_loop sep cur (c # cs) =
     (if c = sep then cur # split_loop sep [] cs else split_loop sep (cur @ [c]) cs)"

definition str_split :: "string \<Rightarrow> char \<Rightarrow> string list" where
  "str_split s sep = split_loop sep [] s"

text \<open>The inner loop of \<open>IRV\<close> over \<open>sorted(vote)\<close>; unpacking the split token into
  \<open>next_rank, candidate\<close> raises ValueError unless there are exactly two pieces.\<close>

fun ordered_candidates_loop :: "string list \<Rightarrow> choice list \<Rightarrow> error + choice list" where
  "ordered_candidates_loop [] ordered_candidates = Inr ordered_candidates"
| "ordered_candidates_loop (rank_candidate # rest) ordered_candidates =
     (case str_split rank_candidate CHR ''-'' of
        [next_rank, candidate] \<Rightarrow>
          ordered_candidates_loop rest (ordered_candidates @ [candidate])
      | _ \<Rightarrow> Inl ValueError)"

text \<open>The outer loop of \<open>IRV\<close>: \<open>ordered_tally[ordered_candidates] = tally[vote]\<close>
  is a plain assignment.\<close>

fun ordered_tally_loop :: "(string list \<times> int) list \<Rightarrow> tally \<Rightarrow> error + tally" where
  "ordered_tally_loop [] ordered_tally = Inr ordered_tally"
| "ordered_tally_loop ((vote, count) # rest) ordered_tally =
     (case ordered_candidates_loop (sort vote) [] of
        Inl err \<Rightarrow> Inl err
      | Inr ordered_candidates \<Rightarrow>
          ordered_tally_loop rest (dict_set ordered_tally ordered_candidates count))"

text \<open>\<open>IRV(e, cid, tally)\<close> reads neither the election \<open>e\<close> nor the contest id;
  its result is a tuple of one element, and the tie-breaker list is empty.\<close>

definition IRV :: "(string list \<times> int) list \<Rightarrow> error + choice list" where
  "IRV tally =
     (case ordered_tally_loop tally [] of
        Inl err \<Rightarrow> Inl err
      | Inr ordered_tally \<Rightarrow>
          (case rcv_winner ordered_tally [] of
             Inl err \<Rightarrow> Inl err
           | Inr w \<Rightarrow> Inr [w]))"

section \<open>The specification's wording of the normalizer and of the adapter\<close>

text \<open>These definitions follow the words of the specification, not the code, and are
  compared with the code below.\<close>

definition spec_overvote_truncation :: "ballot \<Rightarrow> ballot" where
  "spec_overvote_truncation b = takeWhile (\<lambda>c. c \<noteq> overvote) b"

definition spec_first_double_undervote :: "ballot \<Rightarrow> nat option" where
  "spec_first_double_undervote b =
     find (\<lambda>i. b ! i = undervote \<and> b ! (i + 1) = undervote) [0 ..< length b - 1]"

definition spec_double_undervote_truncation :: "ballot \<Rightarrow> ballot" where
  "spec_double_undervote_truncation b =
     (case spec_first_double_undervote b of None \<Rightarrow> b | Some i \<Rightarrow> take i b)"

definition spec_undervote_removal :: "ballot \<Rightarrow> ballot" where
  "spec_undervote_removal b = filter (\<lambda>c. c \<noteq> undervote) b"

definition spec_clean_ballot :: "ballot \<Rightarrow> ballot" where
  "spec_clean_ballot b =
     spec_undervote_removal (spec_double_undervote_truncation (spec_overvote_truncation b))"

text \<open>The tokens with exactly one dash, and the candidate of a token: the text after
  its first dash.\<close>

definition rank_token :: "string \<Rightarrow> bool" where
  "rank_token s = (count_list s CHR ''-'' = 1)"

definition spec_candidate :: "string \<Rightarrow> choice" where
  "spec_candidate s = tl (dropWhile (\<lambda>c. c \<noteq> CHR ''-'') s)"

definition spec_adapt :: "string list \<Rightarrow> ballot" where
  "spec_adapt vote = map spec_candidate (sort vote)"

text \<open>The adapted tally: every ballot adapted, in the order of enumeration, each
  count assigned under the adapted ballot.\<close>

definition adapted_tally :: "(string list \<times> int) list \<Rightarrow> tally \<Rightarrow> tally" where
  "adapted_tally tally acc = fold (\<lambda>(vote, count) ot. dict_set ot (spec_adapt vote) count) tally acc"

section \<open>Merging ballots into a dictionary\<close>

text \<open>Every pass over a tally has the same shape: each ballot is rewritten and its
  count added under the rewritten ballot.\<close>

definition merge_ballots ::
  "('a \<Rightarrow> 'b) \<Rightarrow> ('a \<times> int) list \<Rightarrow> ('b \<times> int) list \<Rightarrow> ('b \<times> int) list" where
  "merge_ballots f t acc = fold (\<lambda>(b, c) nt. dict_add nt (f b) c) t acc"

text \<open>The total count of the entries of \<open>t\<close> that \<open>f\<close> sends to \<open>k\<close>.\<close>

definition weight_of :: "('a \<Rightarrow> 'b) \<Rightarrow> ('a \<times> int) list \<Rightarrow> 'b \<Rightarrow> int" where
  "weight_of f t k = sum_list (map snd (filter (\<lambda>(b, c). f b = k) t))"

text \<open>The list \<open>E\<close> of \<open>rcv_round\<close> before it is sorted.\<close>

definition elimination_keys ::
  "(choice \<times> int) list \<Rightarrow> choice list \<Rightarrow> (int \<times> int \<times> choice) list" where
  "elimination_keys d tie_breaker = map (\<lambda>(k, c). (c, - tie_breaker_index tie_breaker k, k)) d"

lemma merge_ballots_Nil [simp]: "merge_ballots f [] acc = acc"
  by (simp add: merge_ballots_def)

lemma merge_ballots_Cons [simp]:
  "merge_ballots f ((b, c) # t) acc = merge_ballots f t (dict_add acc (f b) c)"
  by (simp add: merge_ballots_def)

lemma merge_ballots_append:
  "merge_ballots f (t @ u) acc = merge_ballots f u (merge_ballots f t acc)"
  by (simp add: merge_ballots_def)

lemma keys_dict_add: "fst ` set (dict_add d k v) = insert k (fst ` set d)"
proof (induction d)
  case Nil
  show ?case by simp
next
  case (Cons p d)
  obtain k' v' where p: "p = (k', v')" by (cases p)
  show ?case using Cons.IH by (cases "k' = k") (auto simp: p)
qed

lemma distinct_dict_add: "distinct (map fst d) \<Longrightarrow> distinct (map fst (dict_add d k v))"
proof (induction d)
  case Nil
  show ?case by simp
next
  case (Cons p d)
  obtain k' v' where p: "p = (k', v')" by (cases p)
  show ?case using Cons keys_dict_add [of d k v] by (cases "k' = k") (auto simp: p)
qed

lemma map_of_dict_add:
  "map_of (dict_add d k v) = (map_of d)(k \<mapsto> (case map_of d k of None \<Rightarrow> v | Some v' \<Rightarrow> v' + v))"
  by (induction d) (auto simp: fun_eq_iff)

lemma dict_add_new: "k \<notin> fst ` set d \<Longrightarrow> dict_add d k v = d @ [(k, v)]"
  by (induction d) auto

lemma dict_add_twice: "dict_add (dict_add d k v) k w = dict_add d k (v + w)"
  by (induction d) auto

lemma dict_add_commute:
  "j \<in> fst ` set d \<Longrightarrow> dict_add (dict_add d j c) k v = dict_add (dict_add d k v) j c"
proof (induction d)
  case Nil
  then show ?case by simp
next
  case (Cons p d)
  obtain k' v' where p: "p = (k', v')" by (cases p)
  show ?case
  proof (cases "k' = j")
    case True
    then show ?thesis by (simp add: p)
  next
    case False
    then have "j \<in> fst ` set d" using Cons.prems by (auto simp: p)
    then show ?thesis using Cons.IH False by (simp add: p)
  qed
qed

lemma keys_merge_ballots:
  "fst ` set (merge_ballots f t acc) = fst ` set acc \<union> f ` fst ` set t"
proof (induction t arbitrary: acc)
  case Nil
  then show ?case by simp
next
  case (Cons p t)
  obtain b v where p: "p = (b, v)" by (cases p)
  show ?case by (simp add: p Cons.IH keys_dict_add)
qed

lemma distinct_merge_ballots:
  "distinct (map fst acc) \<Longrightarrow> distinct (map fst (merge_ballots f t acc))"
proof (induction t arbitrary: acc)
  case Nil
  then show ?case by simp
next
  case (Cons p t)
  obtain b v where p: "p = (b, v)" by (cases p)
  show ?case using Cons by (simp add: p distinct_dict_add)
qed

lemma merge_ballots_dict_add_acc:
  "j \<in> fst ` set acc \<Longrightarrow>
   merge_ballots f t (dict_add acc j c) = dict_add (merge_ballots f t acc) j c"
proof (induction t arbitrary: acc)
  case Nil
  then show ?case by simp
next
  case (Cons p t)
  obtain b v where p: "p = (b, v)" by (cases p)
  have "j \<in> fst ` set (dict_add acc (f b) v)" using Cons.prems by (simp add: keys_dict_add)
  then have "merge_ballots f t (dict_add (dict_add acc (f b) v) j c)
               = dict_add (merge_ballots f t (dict_add acc (f b) v)) j c"
    by (rule Cons.IH)
  moreover have "dict_add (dict_add acc j c) (f b) v = dict_add (dict_add acc (f b) v) j c"
    using Cons.prems by (rule dict_add_commute)
  ultimately show ?case by (simp add: p)
qed

lemma merge_ballots_dict_add:
  "merge_ballots g (dict_add d k c) acc = dict_add (merge_ballots g d acc) (g k) c"
proof (induction d arbitrary: acc)
  case Nil
  then show ?case by simp
next
  case (Cons p d)
  obtain k' v' where p: "p = (k', v')" by (cases p)
  show ?case
  proof (cases "k' = k")
    case True
    have "g k \<in> fst ` set (dict_add acc (g k) v')" by (simp add: keys_dict_add)
    then have "merge_ballots g d (dict_add (dict_add acc (g k) v') (g k) c)
                = dict_add (merge_ballots g d (dict_add acc (g k) v')) (g k) c"
      by (rule merge_ballots_dict_add_acc)
    then show ?thesis using True by (simp add: p dict_add_twice)
  next
    case False
    then show ?thesis using Cons.IH by (simp add: p)
  qed
qed

lemma merge_ballots_compose_acc:
  "merge_ballots g (merge_ballots f t acc) [] = merge_ballots (g \<circ> f) t (merge_ballots g acc [])"
proof (induction t arbitrary: acc)
  case Nil
  then show ?case by simp
next
  case (Cons p t)
  obtain b v where p: "p = (b, v)" by (cases p)
  show ?case by (simp add: p Cons.IH merge_ballots_dict_add)
qed

lemma merge_ballots_compose:
  "merge_ballots g (merge_ballots f t []) [] = merge_ballots (g \<circ> f) t []"
  by (simp add: merge_ballots_compose_acc)

lemma merge_ballots_cong:
  "(\<And>b. b \<in> fst ` set t \<Longrightarrow> f b = g b) \<Longrightarrow> merge_ballots f t acc = merge_ballots g t acc"
proof (induction t arbitrary: acc)
  case Nil
  then show ?case by simp
next
  case (Cons p t)
  obtain b v where p: "p = (b, v)" by (cases p)
  have "f b = g b" using Cons.prems by (simp add: p)
  moreover have "merge_ballots f t (dict_add acc (g b) v) = merge_ballots g t (dict_add acc (g b) v)"
    using Cons.prems by (intro Cons.IH) (auto simp: p)
  ultimately show ?case by (simp add: p)
qed

lemma merge_ballots_id_acc:
  "distinct (map fst (acc @ t)) \<Longrightarrow> (\<And>b. b \<in> fst ` set t \<Longrightarrow> f b = b) \<Longrightarrow>
   merge_ballots f t acc = acc @ t"
proof (induction t arbitrary: acc)
  case Nil
  then show ?case by simp
next
  case (Cons p t)
  obtain b v where p: "p = (b, v)" by (cases p)
  have fb: "f b = b" using Cons.prems(2) by (simp add: p)
  have nb: "b \<notin> fst ` set acc" using Cons.prems(1) by (auto simp: p)
  have "merge_ballots f t (acc @ [(b, v)]) = (acc @ [(b, v)]) @ t"
    using Cons.prems by (intro Cons.IH) (auto simp: p)
  then show ?case by (simp add: p fb dict_add_new [OF nb])
qed

lemma weight_of_notin: "k \<notin> f ` fst ` set t \<Longrightarrow> weight_of f t k = 0"
  by (induction t) (auto simp: weight_of_def)

lemma weight_of_Cons:
  "weight_of f ((b, c) # t) k = (if f b = k then c else 0) + weight_of f t k"
  by (simp add: weight_of_def)

lemma map_of_merge_ballots:
  "map_of (merge_ballots f t acc) k =
     (if k \<in> f ` fst ` set t
      then Some ((case map_of acc k of None \<Rightarrow> 0 | Some v \<Rightarrow> v) + weight_of f t k)
      else map_of acc k)"
proof (induction t arbitrary: acc)
  case Nil
  then show ?case by simp
next
  case (Cons p t)
  obtain b v where p: "p = (b, v)" by (cases p)
  show ?case
    by (auto simp: p Cons.IH map_of_dict_add weight_of_Cons weight_of_notin split: option.splits)
qed

lemma delete_name_loop_False:
  "delete_name_loop name False b acc = acc @ filter (\<lambda>c. c \<noteq> name) b"
  by (induction b arbitrary: acc) auto

lemma delete_name_loop_True:
  "delete_name_loop name True b acc = acc @ takeWhile (\<lambda>c. c \<noteq> name) b"
  by (induction b arbitrary: acc) auto

lemma delete_name_ballot_False:
  "delete_name_ballot name False b = filter (\<lambda>c. c \<noteq> name) b"
proof (cases "name \<in> set b")
  case True
  then show ?thesis by (simp add: delete_name_ballot_def delete_name_loop_False)
next
  case False
  then have "filter (\<lambda>c. c \<noteq> name) b = b" by (intro filter_True) auto
  then show ?thesis using False by (simp add: delete_name_ballot_def)
qed

lemma delete_name_ballot_True:
  "delete_name_ballot name True b = takeWhile (\<lambda>c. c \<noteq> name) b"
proof (cases "name \<in> set b")
  case True
  then show ?thesis by (simp add: delete_name_ballot_def delete_name_loop_True)
next
  case False
  then have tw: "takeWhile (\<lambda>c. c \<noteq> name) b = b" by (auto simp: takeWhile_eq_all_conv)
  show ?thesis unfolding delete_name_ballot_def tw using False by simp
qed

lemma delete_name_merge:
  "delete_name t name df = merge_ballots (delete_name_ballot name df) t []"
  by (simp add: delete_name_def merge_ballots_def)

lemma delete_double_undervotes_merge:
  "delete_double_undervotes t = merge_ballots (\<lambda>b. take (double_uv_at b) b) t []"
  by (simp add: delete_double_undervotes_def merge_ballots_def)

lemma fold_double_uv_step:
  "\<forall>i \<in> set is. i < length b \<Longrightarrow>
   fold (double_uv_step b) is at =
     (if at = length b
      then (case find (\<lambda>i. b ! i = undervote \<and> b ! (i + 1) = undervote) is of
              None \<Rightarrow> length b | Some i \<Rightarrow> i)
      else at)"
proof (induction "is" arbitrary: at)
  case Nil
  then show ?case by simp
next
  case (Cons i "is")
  then show ?case by (auto simp: double_uv_step_def)
qed

lemma double_uv_at_spec:
  "double_uv_at b = (case spec_first_double_undervote b of None \<Rightarrow> length b | Some i \<Rightarrow> i)"
proof -
  have "\<forall>i \<in> set [0 ..< length b - 1]. i < length b" by auto
  then show ?thesis
    by (simp add: double_uv_at_def spec_first_double_undervote_def fold_double_uv_step)
qed

lemma take_double_uv_at: "take (double_uv_at b) b = spec_double_undervote_truncation b"
  by (simp add: double_uv_at_spec spec_double_undervote_truncation_def split: option.split)

lemma clean_merge: "clean t = merge_ballots spec_clean_ballot t []"
proof -
  have "spec_clean_ballot =
        delete_name_ballot undervote False \<circ> (\<lambda>b. take (double_uv_at b) b) \<circ> delete_name_ballot overvote True"
    by (simp add: fun_eq_iff spec_clean_ballot_def spec_undervote_removal_def
        spec_overvote_truncation_def take_double_uv_at delete_name_ballot_False
        delete_name_ballot_True)
  then show ?thesis
    by (simp add: clean_def delete_overvotes_def delete_undervotes_def delete_name_merge
        delete_double_undervotes_merge merge_ballots_compose)
qed

lemma sentinel_free_spec_clean_ballot:
  "overvote \<notin> set (spec_clean_ballot b) \<and> undervote \<notin> set (spec_clean_ballot b)"
proof -
  let ?a = "spec_overvote_truncation b"
  have a: "overvote \<notin> set ?a"
    unfolding spec_overvote_truncation_def using set_takeWhileD by fastforce
  have "set (spec_double_undervote_truncation ?a) \<subseteq> set ?a"
    by (auto simp: spec_double_undervote_truncation_def split: option.splits dest: in_set_takeD)
  with a show ?thesis
    by (auto simp: spec_clean_ballot_def spec_undervote_removal_def)
qed

lemma spec_first_double_undervote_None:
  "undervote \<notin> set b \<Longrightarrow> spec_first_double_undervote b = None"
proof -
  have "\<not> (b ! i = undervote \<and> b ! (i + 1) = undervote)" if "i < length b - 1" and "undervote \<notin> set b" for i
  proof
    assume "b ! i = undervote \<and> b ! (i + 1) = undervote"
    moreover have "b ! i \<in> set b" using that(1) by (intro nth_mem) simp
    ultimately show False using that(2) by simp
  qed
  then show "undervote \<notin> set b \<Longrightarrow> spec_first_double_undervote b = None"
    unfolding spec_first_double_undervote_def find_None_iff by simp
qed

lemma spec_clean_ballot_sentinel_free:
  assumes "overvote \<notin> set b" and "undervote \<notin> set b"
  shows "spec_clean_ballot b = b"
proof -
  have 1: "spec_overvote_truncation b = b"
    using assms(1) by (auto simp: spec_overvote_truncation_def takeWhile_eq_all_conv)
  have 2: "spec_double_undervote_truncation b = b"
    using assms(2) by (simp add: spec_double_undervote_truncation_def spec_first_double_undervote_None)
  have 3: "spec_undervote_removal b = b"
    unfolding spec_undervote_removal_def using assms(2) by (intro filter_True) auto
  show ?thesis by (simp add: spec_clean_ballot_def 1 2 3)
qed

lemma spec_clean_ballot_idem: "spec_clean_ballot (spec_clean_ballot b) = spec_clean_ballot b"
  using sentinel_free_spec_clean_ballot [of b] by (intro spec_clean_ballot_sentinel_free) auto

lemma find_upt_Some:
  "find P [0 ..< n] = Some i \<longleftrightarrow> i < n \<and> P i \<and> (\<forall>j < i. \<not> P j)"
proof
  assume "find P [0 ..< n] = Some i"
  then obtain k where "k < length [0 ..< n]" "P ([0 ..< n] ! k)" "i = [0 ..< n] ! k"
    "\<forall>j < k. \<not> P ([0 ..< n] ! j)"
    by (auto simp: find_Some_iff)
  then show "i < n \<and> P i \<and> (\<forall>j < i. \<not> P j)" by auto
next
  assume "i < n \<and> P i \<and> (\<forall>j < i. \<not> P j)"
  then show "find P [0 ..< n] = Some i"
    unfolding find_Some_iff by (intro exI [of _ i]) auto
qed

lemma spec_first_double_undervote_Some:
  "spec_first_double_undervote b = Some i \<longleftrightarrow>
     i + 1 < length b \<and> b ! i = undervote \<and> b ! (i + 1) = undervote
     \<and> (\<forall>j < i. \<not> (b ! j = undervote \<and> b ! (j + 1) = undervote))"
  unfolding spec_first_double_undervote_def find_upt_Some by auto

text \<open>
  C3. For every raw tally, \<open>clean\<close> rewrites each ballot by overvote truncation, then
  double-undervote truncation, then removal of the remaining undervotes (the function
  \<open>spec_clean_ballot\<close>, written from the specification's words), and the count of a
  cleaned ballot is the sum of the counts of the raw ballots that are rewritten to it;
  the cleaned ballots are the keys of the result, each once.
\<close>

theorem clean_spec:
  "distinct (map fst (clean t))
   \<and> map_of (clean t) b' =
       (if b' \<in> spec_clean_ballot ` fst ` set t
        then Some (sum_list (map snd (filter (\<lambda>(b, c). spec_clean_ballot b = b') t)))
        else None)"
  by (simp add: clean_merge distinct_merge_ballots map_of_merge_ballots weight_of_def)

theorem clean_spec_witness:
  "distinct (map fst (clean
      [([''a'', ''overvote'', ''b''], 4), ([''a''], 2), ([''undervote'', ''a''], 1),
       ([''undervote'', ''undervote'', ''c''], 1)]))
   \<and> map_of (clean
      [([''a'', ''overvote'', ''b''], 4), ([''a''], 2), ([''undervote'', ''a''], 1),
       ([''undervote'', ''undervote'', ''c''], 1)]) [''a''] = Some 7"
proof -
  let ?t = "[([''a'', ''overvote'', ''b''], 4), ([''a''], 2), ([''undervote'', ''a''], 1),
       ([''undervote'', ''undervote'', ''c''], 1)] :: tally"
  have 1: "spec_clean_ballot [''a'', ''overvote'', ''b''] = [''a'']" by code_simp
  have 2: "spec_clean_ballot [''a''] = [''a'']" by code_simp
  have 3: "spec_clean_ballot [''undervote'', ''a''] = [''a'']" by code_simp
  have 4: "spec_clean_ballot [''undervote'', ''undervote'', ''c''] = []" by code_simp
  show ?thesis
    using clean_spec [of ?t "[''a'']"] by (simp add: 1 2 3 4)
qed

text \<open>
  C6. For every tally \<open>t\<close>, cleaning is idempotent: \<open>clean (clean t) = clean t\<close>,
  as lists in insertion order and so as dictionaries.
\<close>

theorem clean_idempotent: "clean (clean t) = clean t"
proof -
  have "clean (clean t) = merge_ballots (spec_clean_ballot \<circ> spec_clean_ballot) t []"
    by (simp add: clean_merge merge_ballots_compose)
  also have "\<dots> = merge_ballots spec_clean_ballot t []"
    by (rule merge_ballots_cong) (simp add: spec_clean_ballot_idem)
  finally show ?thesis by (simp add: clean_merge)
qed

theorem clean_idempotent_witness:
  "clean (clean [([''a'', ''overvote'', ''b''], 4), ([''undervote'', ''a''], 1),
                 ([''c'', ''undervote'', ''undervote'', ''a''], 2)])
   = [([''a''], 5), ([''c''], 2)]"
proof -
  have c: "clean [([''a'', ''overvote'', ''b''], 4), ([''undervote'', ''a''], 1),
                 ([''c'', ''undervote'', ''undervote'', ''a''], 2)]
           = [([''a''], 5), ([''c''], 2)]"
    by code_simp
  show ?thesis
    using clean_idempotent [of "[([''a'', ''overvote'', ''b''], 4), ([''undervote'', ''a''], 1),
                 ([''c'', ''undervote'', ''undervote'', ''a''], 2)]"]
    by (simp only: c)
qed

lemma hd_sorted_Min:
  fixes xs :: "'a::linorder list"
  assumes "sorted xs" and "xs \<noteq> []"
  shows "hd xs = Min (set xs)"
proof -
  obtain y ys where xs: "xs = y # ys" using assms(2) by (cases xs) auto
  have "\<forall>x \<in> set xs. y \<le> x" using assms(1) by (auto simp: xs)
  then have "Min (set xs) = y" by (intro Min_eqI) (auto simp: xs)
  then show ?thesis by (simp add: xs)
qed

lemma hd_sort_Min:
  fixes xs :: "'a::linorder list"
  shows "xs \<noteq> [] \<Longrightarrow> hd (sort xs) = Min (set xs)"
proof -
  assume "xs \<noteq> []"
  then have "sort xs \<noteq> []" by (metis length_0_conv length_sort)
  then show ?thesis using hd_sorted_Min [of "sort xs"] by simp
qed

lemma count_first_choices_fold:
  "fold (\<lambda>(ballot, count) d.
             case ballot of [] \<Rightarrow> d
             | first_choice # _ \<Rightarrow> dict_add d first_choice count) t acc
   = merge_ballots hd (filter (\<lambda>(b, c). b \<noteq> []) t) acc"
proof (induction t arbitrary: acc)
  case Nil
  show ?case by simp
next
  case (Cons p t)
  obtain b v where p: "p = (b, v)" by (cases p)
  show ?case by (cases b) (simp_all add: p Cons.IH)
qed

lemma count_first_choices_merge:
  "count_first_choices t = merge_ballots hd (filter (\<lambda>(b, c). b \<noteq> []) t) []"
  by (simp add: count_first_choices_def count_first_choices_fold)

lemma keys_count_first_choices:
  "fst ` set (count_first_choices t) = hd ` {b \<in> fst ` set t. b \<noteq> []}"
  by (force simp: count_first_choices_merge keys_merge_ballots)

lemma distinct_count_first_choices: "distinct (map fst (count_first_choices t))"
  by (simp add: count_first_choices_merge distinct_merge_ballots)

lemma keys_count_first_choices_choices:
  "fst ` set (count_first_choices t) \<subseteq> choices t"
  by (auto simp: keys_count_first_choices choices_def intro!: bexI)

lemma choices_merge_ballots:
  "choices (merge_ballots f t []) = (\<Union>b \<in> fst ` set t. set (f b))"
  unfolding choices_def keys_merge_ballots by simp

lemma choices_delete_name_False: "choices (delete_name t e False) = choices t - {e}"
  unfolding delete_name_merge choices_merge_ballots
  by (auto simp: choices_def delete_name_ballot_False)

lemma finite_choices: "finite (choices t)"
  by (simp add: choices_def)

lemma rcv_round_Elimination:
  assumes "rcv_round t tb = Inr (Elimination d e LL)"
  shows "d = count_first_choices t" and "LL = delete_name t e False"
    and "2 \<le> length d" and "\<forall>(k, c) \<in> set d. c \<noteq> sum_list (map snd d)"
    and "e = snd (snd (Min (set (elimination_keys d tb))))"
proof -
  let ?d = "count_first_choices t"
  have ne: "?d \<noteq> []" and n1: "length ?d \<noteq> 1"
    using assms by (auto simp: rcv_round_def Let_def split: if_splits)
  have fn: "find (\<lambda>(choice, c). c = sum_list (map snd ?d)) ?d = None"
    using assms ne n1 by (auto simp: rcv_round_def Let_def split: option.splits)
  let ?e = "snd (snd (hd (sort (elimination_keys ?d tb))))"
  have "rcv_round t tb = Inr (Elimination ?d ?e (delete_name t ?e False))"
    using ne n1 fn by (simp add: rcv_round_def Let_def elimination_keys_def)
  with assms have d: "d = ?d" and e: "e = ?e" and LL: "LL = delete_name t ?e False"
    by auto
  show "d = ?d" by (rule d)
  show "LL = delete_name t e False" using e LL by simp
  have "length ?d \<noteq> 0" using ne by simp
  then show "2 \<le> length d" using n1 d by arith
  show "\<forall>(k, c) \<in> set d. c \<noteq> sum_list (map snd d)"
    using fn d by (auto simp: find_None_iff)
  have "elimination_keys ?d tb \<noteq> []" using ne by (simp add: elimination_keys_def)
  then show "e = snd (snd (Min (set (elimination_keys d tb))))"
    using e d by (simp add: hd_sort_Min)
qed

lemma Min_elimination_keys_in:
  assumes "d \<noteq> []"
  shows "snd (snd (Min (set (elimination_keys d tb)))) \<in> fst ` set d"
proof -
  have "Min (set (elimination_keys d tb)) \<in> set (elimination_keys d tb)"
    using assms by (intro Min_in) (auto simp: elimination_keys_def)
  then obtain k c where "(k, c) \<in> set d"
    and "Min (set (elimination_keys d tb)) = (c, - tie_breaker_index tb k, k)"
    by (auto simp: elimination_keys_def)
  then show ?thesis by force
qed

lemma rcv_round_Elimination_decreases:
  assumes "rcv_round t tb = Inr (Elimination d e LL)"
  shows "e \<in> choices t" and "choices LL = choices t - {e}"
    and "choices (delete_name LL e False) = choices LL"
    and "card (choices (delete_name LL e False)) < card (choices t)"
proof -
  note r = rcv_round_Elimination [OF assms]
  have "d \<noteq> []" using r(3) by auto
  then have "e \<in> fst ` set d" using r(5) Min_elimination_keys_in by simp
  then show e: "e \<in> choices t" using keys_count_first_choices_choices r(1) by auto
  show LL: "choices LL = choices t - {e}" by (simp add: r(2) choices_delete_name_False)
  show same: "choices (delete_name LL e False) = choices LL"
    by (simp add: choices_delete_name_False LL)
  show "card (choices (delete_name LL e False)) < card (choices t)"
    unfolding same LL using e finite_choices by (intro psubset_card_mono) auto
qed

termination rcv_winner_loop
proof (relation "measure (\<lambda>(tally, tie_breaker, round_number). card (choices tally))")
  show "wf (measure (\<lambda>(tally, tie_breaker, round_number). card (choices tally)))" by simp
next
  fix tally tie_breaker round_number b x21 x22 x23
  assume "rcv_round tally tie_breaker = Inr b" and "b = Elimination x21 x22 x23"
  then show "((delete_name x23 x22 False, tie_breaker, round_number + 1),
              tally, tie_breaker, round_number)
             \<in> measure (\<lambda>(tally, tie_breaker, round_number). card (choices tally))"
    using rcv_round_Elimination_decreases(4) by simp
qed

lemma list_index_first:
  "x \<in> set xs \<Longrightarrow>
     list_index xs x < length xs \<and> xs ! list_index xs x = x
     \<and> (\<forall>j < list_index xs x. xs ! j \<noteq> x)"
proof (induction xs)
  case Nil
  then show ?case by simp
next
  case (Cons y ys)
  show ?case
  proof (cases "y = x")
    case True
    then show ?thesis by simp
  next
    case False
    then have "x \<in> set ys" using Cons.prems by simp
    then have ih: "list_index ys x < length ys \<and> ys ! list_index ys x = x
       \<and> (\<forall>j < list_index ys x. ys ! j \<noteq> x)" by (rule Cons.IH)
    have "(y # ys) ! j \<noteq> x" if "j < Suc (list_index ys x)" for j
      using that ih False by (cases j) auto
    then show ?thesis using ih False by simp
  qed
qed

lemma rcv_round_eliminates:
  assumes "2 \<le> length (count_first_choices t)"
    and "\<forall>(k, c) \<in> set (count_first_choices t). c \<noteq> sum_list (map snd (count_first_choices t))"
  shows "rcv_round t tb =
     Inr (Elimination (count_first_choices t)
           (snd (snd (Min (set (elimination_keys (count_first_choices t) tb)))))
           (delete_name t (snd (snd (Min (set (elimination_keys (count_first_choices t) tb))))) False))"
proof -
  let ?d = "count_first_choices t"
  have ne: "?d \<noteq> []" and n1: "length ?d \<noteq> 1" using assms(1) by auto
  have fn: "find (\<lambda>(choice, c). c = sum_list (map snd ?d)) ?d = None"
    using assms(2) by (auto simp: find_None_iff)
  have "elimination_keys ?d tb \<noteq> []" using ne by (simp add: elimination_keys_def)
  then have "hd (sort (elimination_keys ?d tb)) = Min (set (elimination_keys ?d tb))"
    by (rule hd_sort_Min)
  then show ?thesis
    using ne n1 fn by (simp add: rcv_round_def Let_def elimination_keys_def)
qed

lemma Min_elimination_keys:
  assumes "d \<noteq> []"
  obtains e we where "(e, we) \<in> set d"
    and "Min (set (elimination_keys d tb)) = (we, - tie_breaker_index tb e, e)"
    and "\<forall>(k, wk) \<in> set d.
           (we, - tie_breaker_index tb e, e) \<le> (wk, - tie_breaker_index tb k, k)"
proof -
  let ?E = "set (elimination_keys d tb)"
  have fin: "finite ?E" and ne: "?E \<noteq> {}" using assms by (auto simp: elimination_keys_def)
  have "Min ?E \<in> ?E" using fin ne by (rule Min_in)
  then obtain e we where m: "(e, we) \<in> set d"
    "Min ?E = (we, - tie_breaker_index tb e, e)"
    by (auto simp: elimination_keys_def)
  have "(we, - tie_breaker_index tb e, e) \<le> (wk, - tie_breaker_index tb k, k)"
    if "(k, wk) \<in> set d" for k wk
  proof -
    have "(wk, - tie_breaker_index tb k, k) \<in> ?E"
      using that by (force simp: elimination_keys_def)
    then have "Min ?E \<le> (wk, - tie_breaker_index tb k, k)" using fin by (intro Min_le)
    then show ?thesis by (simp only: m(2))
  qed
  then show ?thesis using m that by blast
qed

lemma tie_breaker_index_position:
  "(k \<notin> set tb \<longrightarrow> tie_breaker_index tb k = int (length tb))
   \<and> (k \<in> set tb \<longrightarrow>
        (\<exists>i < length tb. tie_breaker_index tb k = int i \<and> tb ! i = k
            \<and> (\<forall>j < i. tb ! j \<noteq> k)))"
proof (intro conjI impI)
  assume "k \<notin> set tb"
  then show "tie_breaker_index tb k = int (length tb)" by (simp add: tie_breaker_index_def)
next
  assume k: "k \<in> set tb"
  then have "tie_breaker_index tb k = int (list_index tb k)"
    by (simp add: tie_breaker_index_def)
  then show "\<exists>i < length tb. tie_breaker_index tb k = int i \<and> tb ! i = k
            \<and> (\<forall>j < i. tb ! j \<noteq> k)"
    using list_index_first [OF k] by blast
qed

lemma tied_choice_listed_earlier:
  assumes "k \<noteq> e"
    and "tie_breaker_index tb k < tie_breaker_index tb e
         \<or> (tie_breaker_index tb k = tie_breaker_index tb e \<and> e \<le> k)"
  shows "if e \<in> set tb
         then \<exists>i j. i < j \<and> j < length tb \<and> tb ! i = k \<and> tb ! j = e \<and> (\<forall>m < j. tb ! m \<noteq> e)
         else k \<in> set tb \<or> e < k"
proof (cases "e \<in> set tb")
  case True
  then obtain j where j: "j < length tb" "tie_breaker_index tb e = int j" "tb ! j = e"
    "\<forall>m < j. tb ! m \<noteq> e"
    using tie_breaker_index_position [of e tb] by blast
  have kin: "k \<in> set tb"
  proof (rule ccontr)
    assume "k \<notin> set tb"
    then have "tie_breaker_index tb k = int (length tb)"
      using tie_breaker_index_position [of k tb] by blast
    then show False using assms(2) j(1,2) by auto
  qed
  then obtain i where i: "i < length tb" "tie_breaker_index tb k = int i" "tb ! i = k"
    using tie_breaker_index_position [of k tb] by blast
  have "i \<noteq> j" using i(3) j(3) assms(1) by auto
  then have "i < j" using assms(2) i(2) j(2) by auto
  then show ?thesis using True i j by auto
next
  case False
  then have e: "tie_breaker_index tb e = int (length tb)"
    using tie_breaker_index_position [of e tb] by blast
  have "e < k" if "k \<notin> set tb"
  proof -
    have "tie_breaker_index tb k = int (length tb)"
      using that tie_breaker_index_position [of k tb] by blast
    then have "e \<le> k" using assms(2) e by auto
    then show ?thesis using assms(1) by auto
  qed
  then show ?thesis using False by auto
qed

text \<open>
  C1. For every tally whose first-choice counts have at least two choices, none of
  them holding all the first-choice weight, the round eliminates a choice \<open>e\<close> of the
  first-choice counts that minimizes the key: every choice \<open>k\<close> has more weight than
  \<open>e\<close>, or the same weight and a tie-break rank not above that of \<open>e\<close>. The rank
  of a choice is the position of its first occurrence in the tie-break order, or the
  length of the order when the choice is absent from it. So a choice tied with \<open>e\<close>
  at the minimum weight is listed in the order before the first occurrence of \<open>e\<close>,
  when \<open>e\<close> is listed; when \<open>e\<close> is not listed, a tied choice is listed, or is
  not listed either and has a name above that of \<open>e\<close>.
\<close>

theorem rcv_round_eliminates_minimum:
  assumes "2 \<le> length (count_first_choices t)"
    and "\<forall>(k, c) \<in> set (count_first_choices t). c \<noteq> sum_list (map snd (count_first_choices t))"
  shows "\<exists>e we. rcv_round t tb =
             Inr (Elimination (count_first_choices t) e (delete_name t e False))
           \<and> (e, we) \<in> set (count_first_choices t)
           \<and> (\<forall>(k, wk) \<in> set (count_first_choices t).
                 we < wk
                 \<or> (we = wk \<and> tie_breaker_index tb k < tie_breaker_index tb e)
                 \<or> (we = wk \<and> tie_breaker_index tb k = tie_breaker_index tb e \<and> e \<le> k))
           \<and> (\<forall>(k, wk) \<in> set (count_first_choices t). wk = we \<and> k \<noteq> e \<longrightarrow>
                 (if e \<in> set tb
                  then \<exists>i j. i < j \<and> j < length tb \<and> tb ! i = k \<and> tb ! j = e
                         \<and> (\<forall>m < j. tb ! m \<noteq> e)
                  else k \<in> set tb \<or> e < k))
           \<and> (\<forall>k. (k \<notin> set tb \<longrightarrow> tie_breaker_index tb k = int (length tb))
                 \<and> (k \<in> set tb \<longrightarrow>
                      (\<exists>i < length tb. tie_breaker_index tb k = int i \<and> tb ! i = k
                          \<and> (\<forall>j < i. tb ! j \<noteq> k))))"
proof -
  let ?d = "count_first_choices t"
  have ne: "?d \<noteq> []" using assms(1) by auto
  obtain e we where m: "(e, we) \<in> set ?d"
    "Min (set (elimination_keys ?d tb)) = (we, - tie_breaker_index tb e, e)"
    "\<forall>(k, wk) \<in> set ?d.
           (we, - tie_breaker_index tb e, e) \<le> (wk, - tie_breaker_index tb k, k)"
    using Min_elimination_keys [OF ne] by blast
  have r: "rcv_round t tb = Inr (Elimination ?d e (delete_name t e False))"
    using rcv_round_eliminates [OF assms, of tb] by (simp add: m(2))
  have key: "we < wk
        \<or> (we = wk \<and> tie_breaker_index tb k < tie_breaker_index tb e)
        \<or> (we = wk \<and> tie_breaker_index tb k = tie_breaker_index tb e \<and> e \<le> k)"
    if kd: "(k, wk) \<in> set ?d" for k wk
  proof -
    have "(we, - tie_breaker_index tb e, e) \<le> (wk, - tie_breaker_index tb k, k)"
      using m(3) kd by blast
    then show ?thesis by (auto simp: less_eq_prod_def)
  qed
  have later: "if e \<in> set tb
         then \<exists>i j. i < j \<and> j < length tb \<and> tb ! i = k \<and> tb ! j = e \<and> (\<forall>m < j. tb ! m \<noteq> e)
         else k \<in> set tb \<or> e < k"
    if kd: "(k, wk) \<in> set ?d" and tie: "wk = we \<and> k \<noteq> e" for k wk
  proof (rule tied_choice_listed_earlier)
    show "k \<noteq> e" using tie by simp
    show "tie_breaker_index tb k < tie_breaker_index tb e
         \<or> (tie_breaker_index tb k = tie_breaker_index tb e \<and> e \<le> k)"
      using key [OF kd] tie by auto
  qed
  have c3: "\<forall>(k, wk) \<in> set ?d.
                 we < wk
                 \<or> (we = wk \<and> tie_breaker_index tb k < tie_breaker_index tb e)
                 \<or> (we = wk \<and> tie_breaker_index tb k = tie_breaker_index tb e \<and> e \<le> k)"
    using key by blast
  have c4: "\<forall>(k, wk) \<in> set ?d. wk = we \<and> k \<noteq> e \<longrightarrow>
                 (if e \<in> set tb
                  then \<exists>i j. i < j \<and> j < length tb \<and> tb ! i = k \<and> tb ! j = e
                         \<and> (\<forall>m < j. tb ! m \<noteq> e)
                  else k \<in> set tb \<or> e < k)"
    using later by blast
  have c5: "\<forall>k. (k \<notin> set tb \<longrightarrow> tie_breaker_index tb k = int (length tb))
                 \<and> (k \<in> set tb \<longrightarrow>
                      (\<exists>i < length tb. tie_breaker_index tb k = int i \<and> tb ! i = k
                          \<and> (\<forall>j < i. tb ! j \<noteq> k)))"
    using tie_breaker_index_position by blast
  show ?thesis
    by (intro exI [of _ e] exI [of _ we] conjI r m(1) c3 c4 c5)
qed

theorem rcv_round_eliminates_minimum_witness:
  "2 \<le> length (count_first_choices
       [([''a'', ''b''], 1), ([''c'', ''d''], 1), ([''c'', ''e''], 1), ([''f'', ''a''], 1)])
   \<and> rcv_round
         [([''a'', ''b''], 1), ([''c'', ''d''], 1), ([''c'', ''e''], 1), ([''f'', ''a''], 1)]
         [''a'', ''b'', ''c'', ''d'', ''e'', ''f'']
        = Inr (Elimination [(''a'', 1), (''c'', 2), (''f'', 1)] ''f''
            [([''a'', ''b''], 1), ([''c'', ''d''], 1), ([''c'', ''e''], 1), ([''a''], 1)])
   \<and> tie_breaker_index [''a'', ''b'', ''c'', ''d'', ''e'', ''f''] ''a'' = 0
   \<and> tie_breaker_index [''a'', ''b'', ''c'', ''d'', ''e'', ''f''] ''f'' = 5"
proof -
  let ?t = "[([''a'', ''b''], 1), ([''c'', ''d''], 1), ([''c'', ''e''], 1), ([''f'', ''a''], 1)]
              :: tally"
  let ?tb = "[''a'', ''b'', ''c'', ''d'', ''e'', ''f'']"
  have d: "count_first_choices ?t = [(''a'', 1), (''c'', 2), (''f'', 1)]" by code_simp
  have h1: "2 \<le> length (count_first_choices ?t)" by (simp add: d)
  have h2: "\<forall>(k, c) \<in> set (count_first_choices ?t).
              c \<noteq> sum_list (map snd (count_first_choices ?t))"
    by (simp add: d)
  have ia: "tie_breaker_index ?tb ''a'' = 0" by code_simp
  have ic: "tie_breaker_index ?tb ''c'' = 2" by code_simp
  have ifa: "tie_breaker_index ?tb ''f'' = 5" by code_simp
  have LL: "delete_name ?t ''f'' False
      = [([''a'', ''b''], 1), ([''c'', ''d''], 1), ([''c'', ''e''], 1), ([''a''], 1)]"
    by code_simp
  obtain e we where r: "rcv_round ?t ?tb
         = Inr (Elimination (count_first_choices ?t) e (delete_name ?t e False))"
    and m: "(e, we) \<in> set (count_first_choices ?t)"
    and k: "\<forall>(k, wk) \<in> set (count_first_choices ?t).
                 we < wk
                 \<or> (we = wk \<and> tie_breaker_index ?tb k < tie_breaker_index ?tb e)
                 \<or> (we = wk \<and> tie_breaker_index ?tb k = tie_breaker_index ?tb e \<and> e \<le> k)"
    using rcv_round_eliminates_minimum [OF h1 h2, of ?tb] by (elim exE conjE)
  have "e = ''f''"
  proof -
    have cases: "e = ''a'' \<and> we = 1 \<or> e = ''c'' \<and> we = 2 \<or> e = ''f'' \<and> we = 1"
      using m unfolding d by simp
    have kf: "we < 1 \<or> (we = 1 \<and> 5 < tie_breaker_index ?tb e)
              \<or> (we = 1 \<and> 5 = tie_breaker_index ?tb e \<and> e \<le> ''f'')"
      using k unfolding d by (simp add: ifa)
    have ka: "we < 1 \<or> (we = 1 \<and> 0 < tie_breaker_index ?tb e)
              \<or> (we = 1 \<and> 0 = tie_breaker_index ?tb e \<and> e \<le> ''a'')"
      using k unfolding d by (simp add: ia)
    show ?thesis using cases kf ka ia ic by auto
  qed
  then have "rcv_round ?t ?tb = Inr (Elimination [(''a'', 1), (''c'', 2), (''f'', 1)] ''f''
            [([''a'', ''b''], 1), ([''c'', ''d''], 1), ([''c'', ''e''], 1), ([''a''], 1)])"
    using r by (simp only: d LL)
  then show ?thesis using h1 ia ifa by (intro conjI)
qed

lemma dict_add_nonneg:
  "\<forall>(k, c) \<in> set d. 0 \<le> c \<Longrightarrow> 0 \<le> v \<Longrightarrow> \<forall>(k, c) \<in> set (dict_add d k' v). 0 \<le> c"
  by (induction d) (auto split: if_splits)

lemma merge_ballots_nonneg:
  "\<forall>(k, c) \<in> set acc. 0 \<le> c \<Longrightarrow> \<forall>(b, c) \<in> set t. 0 \<le> c \<Longrightarrow>
   \<forall>(k, c) \<in> set (merge_ballots f t acc). 0 \<le> c"
proof (induction t arbitrary: acc)
  case Nil
  then show ?case by simp
next
  case (Cons p t)
  obtain b v where p: "p = (b, v)" by (cases p)
  have "\<forall>(k, c) \<in> set (dict_add acc (f b) v). 0 \<le> c"
    using Cons.prems by (intro dict_add_nonneg) (auto simp: p)
  then show ?case using Cons.prems by (simp add: p Cons.IH)
qed

lemma count_first_choices_nonneg:
  "\<forall>(b, c) \<in> set t. 0 \<le> c \<Longrightarrow> \<forall>(k, c) \<in> set (count_first_choices t). 0 \<le> c"
  unfolding count_first_choices_merge by (rule merge_ballots_nonneg) auto

lemma sum_list_single_positive:
  fixes d :: "('k \<times> int) list"
  assumes "(k, c) \<in> set d" and "distinct (map fst d)"
    and "\<forall>(k', c') \<in> set d. k' \<noteq> k \<longrightarrow> c' = 0"
  shows "sum_list (map snd d) = c"
  using assms
proof (induction d)
  case Nil
  then show ?case by simp
next
  case (Cons p d)
  obtain k' c' where p: "p = (k', c')" by (cases p)
  show ?case
  proof (cases "k' = k")
    case True
    then have c: "c' = c" using Cons.prems(1,2) by (force simp: p)
    have "\<forall>x \<in> set d. snd x = 0" using Cons.prems(2,3) True by (force simp: p)
    then have "sum_list (map snd d) = 0" by (induction d) auto
    then show ?thesis by (simp add: p c)
  next
    case False
    then have "(k, c) \<in> set d" using Cons.prems(1) by (auto simp: p)
    then have "sum_list (map snd d) = c" using Cons.prems by (intro Cons.IH) auto
    moreover have "c' = 0" using Cons.prems(3) False by (auto simp: p)
    ultimately show ?thesis by (simp add: p)
  qed
qed

lemma rcv_round_Winner_iff:
  assumes "count_first_choices t \<noteq> []"
  shows "(\<exists>w d. rcv_round t tb = Inr (Winner w d)) \<longleftrightarrow>
         length (count_first_choices t) = 1
         \<or> (\<exists>(k, c) \<in> set (count_first_choices t). c = sum_list (map snd (count_first_choices t)))"
proof -
  let ?d = "count_first_choices t"
  let ?P = "\<lambda>(choice, c). c = sum_list (map snd ?d)"
  show ?thesis
  proof (cases "length ?d = 1")
    case True
    then show ?thesis using assms by (simp add: rcv_round_def Let_def)
  next
    case n1: False
    show ?thesis
    proof (cases "find ?P ?d")
      case None
      then have "\<not> (\<exists>(k, c) \<in> set ?d. c = sum_list (map snd ?d))"
        by (auto simp: find_None_iff)
      moreover have "\<not> (\<exists>w d. rcv_round t tb = Inr (Winner w d))"
        using assms n1 None by (simp add: rcv_round_def Let_def)
      ultimately show ?thesis using n1 by simp
    next
      case (Some a)
      obtain w c where a: "a = (w, c)" by (cases a)
      have "find ?P ?d \<noteq> None" using Some by simp
      then have "\<exists>x \<in> set ?d. ?P x" unfolding find_None_iff by blast
      moreover have "rcv_round t tb = Inr (Winner w ?d)"
        using assms n1 Some by (simp add: rcv_round_def Let_def a)
      ultimately show ?thesis by auto
    qed
  qed
qed

lemma rcv_round_not_Winner:
  assumes "count_first_choices t \<noteq> []"
    and "\<not> (\<exists>w d. rcv_round t tb = Inr (Winner w d))"
  shows "\<exists>d e LL. rcv_round t tb = Inr (Elimination d e LL)"
proof -
  have "rcv_round t tb \<noteq> Inl err" for err
    using assms(1) by (auto simp: rcv_round_def Let_def split: option.splits)
  then obtain r where r: "rcv_round t tb = Inr r" by (cases "rcv_round t tb") auto
  then show ?thesis using assms(2) by (cases r) auto
qed

text \<open>
  C2. For every tally with nonnegative counts whose first-choice counts are not
  empty, the round declares a winner exactly when exactly one choice has positive
  first-choice weight or some choice's first-choice weight equals the sum of all
  first-choice weights; in every other case it produces an elimination.
\<close>

theorem rcv_round_winner_iff:
  assumes "count_first_choices t \<noteq> []" and "\<forall>(b, c) \<in> set t. 0 \<le> c"
  shows "((\<exists>w d. rcv_round t tb = Inr (Winner w d)) \<longleftrightarrow>
            (\<exists>!k. \<exists>c. (k, c) \<in> set (count_first_choices t) \<and> 0 < c)
            \<or> (\<exists>(k, c) \<in> set (count_first_choices t).
                  c = sum_list (map snd (count_first_choices t))))
         \<and> ((\<exists>w d. rcv_round t tb = Inr (Winner w d))
            \<or> (\<exists>d e LL. rcv_round t tb = Inr (Elimination d e LL)))"
proof -
  let ?d = "count_first_choices t"
  let ?B = "\<exists>(k, c) \<in> set ?d. c = sum_list (map snd ?d)"
  have nonneg: "\<forall>(k, c) \<in> set ?d. 0 \<le> c"
    using assms(2) by (rule count_first_choices_nonneg)
  have one: "?B" if len: "length ?d = 1"
  proof -
    obtain k c where "?d = [(k, c)]" using len by (auto simp: length_Suc_conv)
    then show ?thesis by auto
  qed
  have pos: "?B" if ex1: "\<exists>!k. \<exists>c. (k, c) \<in> set ?d \<and> 0 < c"
  proof -
    obtain k c where kc: "(k, c) \<in> set ?d" "0 < c"
      and uniq: "\<And>k' c'. (k', c') \<in> set ?d \<Longrightarrow> 0 < c' \<Longrightarrow> k' = k"
      using ex1 by blast
    have "\<forall>(k', c') \<in> set ?d. k' \<noteq> k \<longrightarrow> c' = 0"
    proof (clarify)
      fix k' c' assume "(k', c') \<in> set ?d" and "k' \<noteq> k"
      then have "\<not> 0 < c'" and "0 \<le> c'" using uniq nonneg by auto
      then show "c' = 0" by simp
    qed
    then have "sum_list (map snd ?d) = c"
      using kc(1) distinct_count_first_choices by (intro sum_list_single_positive)
    then show ?thesis using kc(1) by auto
  qed
  have "(\<exists>w d. rcv_round t tb = Inr (Winner w d)) \<longleftrightarrow> ?B"
    using rcv_round_Winner_iff [OF assms(1), of tb] one by blast
  then have "(\<exists>w d. rcv_round t tb = Inr (Winner w d)) \<longleftrightarrow>
            (\<exists>!k. \<exists>c. (k, c) \<in> set ?d \<and> 0 < c) \<or> ?B"
    using pos by blast
  moreover have "(\<exists>w d. rcv_round t tb = Inr (Winner w d))
            \<or> (\<exists>d e LL. rcv_round t tb = Inr (Elimination d e LL))"
    using rcv_round_not_Winner [OF assms(1), of tb] by blast
  ultimately show ?thesis by blast
qed

theorem rcv_round_winner_iff_witness:
  "count_first_choices [([''a'', ''b''], 1), ([''a'', ''c''], 1)] \<noteq> []
   \<and> (\<exists>w d. rcv_round [([''a'', ''b''], 1), ([''a'', ''c''], 1)] [''a'', ''b'', ''c'']
              = Inr (Winner w d))"
proof -
  let ?t = "[([''a'', ''b''], 1), ([''a'', ''c''], 1)] :: tally"
  have d: "count_first_choices ?t = [(''a'', 2)]" by code_simp
  have h1: "count_first_choices ?t \<noteq> []" by (simp add: d)
  have h2: "\<forall>(b, c) \<in> set ?t. 0 \<le> c" by simp
  have b: "\<exists>(k, c) \<in> set (count_first_choices ?t).
              c = sum_list (map snd (count_first_choices ?t))"
    by (simp add: d)
  show ?thesis
    using rcv_round_winner_iff [OF h1 h2, of "[''a'', ''b'', ''c'']"] h1 b by blast
qed

lemma count_first_choices_Nil_iff:
  "count_first_choices t = [] \<longleftrightarrow> (\<forall>b \<in> fst ` set t. b = [])"
proof -
  have "count_first_choices t = [] \<longleftrightarrow> fst ` set (count_first_choices t) = {}" by simp
  also have "\<dots> \<longleftrightarrow> (\<forall>b \<in> fst ` set t. b = [])"
    unfolding keys_count_first_choices by auto
  finally show ?thesis .
qed

text \<open>
  C4. The first-choice counts of a tally are empty exactly when every ballot of the
  tally is the empty sequence (so for the empty tally); for such a tally the round
  fails with ExhaustedBallotsError, produces no winner, and resolving the tally
  fails with the same error.
\<close>

theorem rcv_round_exhausted:
  "(count_first_choices t = [] \<longleftrightarrow> (\<forall>b \<in> fst ` set t. b = []))
   \<and> (count_first_choices t = [] \<longrightarrow>
        rcv_round t tb = Inl ExhaustedBallotsError
        \<and> (\<forall>w d. rcv_round t tb \<noteq> Inr (Winner w d))
        \<and> rcv_winner t tb = Inl ExhaustedBallotsError)"
proof (intro conjI impI)
  show "count_first_choices t = [] \<longleftrightarrow> (\<forall>b \<in> fst ` set t. b = [])"
    by (rule count_first_choices_Nil_iff)
next
  assume e: "count_first_choices t = []"
  then show r: "rcv_round t tb = Inl ExhaustedBallotsError" by (simp add: rcv_round_def)
  then show "\<forall>w d. rcv_round t tb \<noteq> Inr (Winner w d)" by simp
  show "rcv_winner t tb = Inl ExhaustedBallotsError"
    by (simp add: rcv_winner_def r)
qed

theorem rcv_round_exhausted_witness:
  "count_first_choices [([], 3)] = []
   \<and> rcv_round [([], 3)] [''a''] = Inl ExhaustedBallotsError
   \<and> rcv_winner [([], 3)] [''a''] = Inl ExhaustedBallotsError"
proof -
  have h: "\<forall>b \<in> fst ` set [([] :: ballot, 3 :: int)]. b = []" by simp
  show ?thesis
    using rcv_round_exhausted [of "[([], 3)]" "[''a'']"] h by blast
qed

lemma rcv_winner_loop_bound:
  "snd (rcv_winner_loop t tb n) \<le> n + card (choices t) + 1
   \<and> ((\<exists>w. fst (rcv_winner_loop t tb n) = Inr w)
      \<or> fst (rcv_winner_loop t tb n) = Inl ExhaustedBallotsError)"
proof (induction t tb n rule: rcv_winner_loop.induct)
  case (1 tally tie_breaker round_number)
  show ?case
  proof (cases "rcv_round tally tie_breaker")
    case (Inl err)
    then have "err = ExhaustedBallotsError"
      by (auto simp: rcv_round_def Let_def split: if_splits option.splits)
    then show ?thesis using Inl by simp
  next
    case (Inr r)
    show ?thesis
    proof (cases r)
      case (Winner w d)
      then show ?thesis using Inr by simp
    next
      case (Elimination d e LL)
      have r: "rcv_round tally tie_breaker = Inr (Elimination d e LL)"
        using Inr Elimination by simp
      have "card (choices (delete_name LL e False)) < card (choices tally)"
        using r by (rule rcv_round_Elimination_decreases(4))
      then show ?thesis using "1.IH" [OF Inr Elimination] r by simp
    qed
  qed
qed

text \<open>
  C9. An elimination round removes the eliminated choice, which occurs in the
  tally, and no other choice from the choices occurring in the tally, so their
  number strictly decreases; the loop of the winner driver, which always
  terminates, ends with a winner or with ExhaustedBallotsError after at most the
  number of distinct choices of the initial tally plus one rounds.
\<close>

theorem rcv_winner_rounds_bounded:
  "(rcv_round t tb = Inr (Elimination d e LL) \<longrightarrow>
      e \<in> choices t \<and> choices LL = choices t - {e}
      \<and> choices (delete_name LL e False) = choices t - {e}
      \<and> card (choices t - {e}) < card (choices t))
   \<and> snd (rcv_winner_loop t tb 0) \<le> card (choices t) + 1
   \<and> ((\<exists>w. rcv_winner t tb = Inr w) \<or> rcv_winner t tb = Inl ExhaustedBallotsError)"
proof (intro conjI impI)
  assume r: "rcv_round t tb = Inr (Elimination d e LL)"
  note dec = rcv_round_Elimination_decreases [OF r]
  show "e \<in> choices t" by (rule dec(1))
  show "choices LL = choices t - {e}" by (rule dec(2))
  show "choices (delete_name LL e False) = choices t - {e}" using dec(2,3) by simp
  show "card (choices t - {e}) < card (choices t)" using dec(2,3,4) by simp
next
  show "snd (rcv_winner_loop t tb 0) \<le> card (choices t) + 1"
    using rcv_winner_loop_bound [of t tb 0] by simp
  show "(\<exists>w. rcv_winner t tb = Inr w) \<or> rcv_winner t tb = Inl ExhaustedBallotsError"
    using rcv_winner_loop_bound [of t tb 0] by (simp add: rcv_winner_def)
qed

theorem rcv_winner_rounds_bounded_witness:
  "rcv_round [([''a'', ''b''], 1), ([''c'', ''d''], 1), ([''c'', ''e''], 1), ([''f'', ''a''], 1)]
      [''a'', ''b'', ''c'', ''d'', ''e'', ''f'']
     = Inr (Elimination [(''a'', 1), (''c'', 2), (''f'', 1)] ''f''
         [([''a'', ''b''], 1), ([''c'', ''d''], 1), ([''c'', ''e''], 1), ([''a''], 1)])
   \<and> ''f'' \<in> choices
        [([''a'', ''b''], 1), ([''c'', ''d''], 1), ([''c'', ''e''], 1), ([''f'', ''a''], 1)]
   \<and> choices [([''a'', ''b''], 1), ([''c'', ''d''], 1), ([''c'', ''e''], 1), ([''a''], 1)]
       = choices
          [([''a'', ''b''], 1), ([''c'', ''d''], 1), ([''c'', ''e''], 1), ([''f'', ''a''], 1)]
         - {''f''}
   \<and> snd (rcv_winner_loop
        [([''a'', ''b''], 1), ([''c'', ''d''], 1), ([''c'', ''e''], 1), ([''f'', ''a''], 1)]
        [''a'', ''b'', ''c'', ''d'', ''e'', ''f''] 0)
      \<le> card (choices
        [([''a'', ''b''], 1), ([''c'', ''d''], 1), ([''c'', ''e''], 1), ([''f'', ''a''], 1)]) + 1"
proof -
  let ?t = "[([''a'', ''b''], 1), ([''c'', ''d''], 1), ([''c'', ''e''], 1), ([''f'', ''a''], 1)]
              :: tally"
  let ?tb = "[''a'', ''b'', ''c'', ''d'', ''e'', ''f'']"
  have r: "rcv_round ?t ?tb = Inr (Elimination [(''a'', 1), (''c'', 2), (''f'', 1)] ''f''
         [([''a'', ''b''], 1), ([''c'', ''d''], 1), ([''c'', ''e''], 1), ([''a''], 1)])"
    by code_simp
  show ?thesis
    using rcv_winner_rounds_bounded [of ?t ?tb "[(''a'', 1), (''c'', 2), (''f'', 1)]" "''f''"
        "[([''a'', ''b''], 1), ([''c'', ''d''], 1), ([''c'', ''e''], 1), ([''a''], 1)]"] r
    by blast
qed

lemma find_Some_set: "find P xs = Some x \<Longrightarrow> x \<in> set xs \<and> P x"
  by (induction xs) (auto split: if_splits)

lemma rcv_round_Winner_in_choices:
  assumes "rcv_round t tb = Inr (Winner w d)"
  shows "w \<in> choices t"
proof -
  let ?d = "count_first_choices t"
  have ne: "?d \<noteq> []" using assms by (auto simp: rcv_round_def Let_def split: if_splits)
  have "w \<in> fst ` set ?d"
  proof (cases "length ?d = 1")
    case True
    then have "w = fst (hd ?d)" using assms ne by (auto simp: rcv_round_def Let_def)
    then show ?thesis using ne by simp
  next
    case False
    then obtain c where "find (\<lambda>(choice, c). c = sum_list (map snd ?d)) ?d = Some (w, c)"
      using assms ne by (auto simp: rcv_round_def Let_def split: option.splits)
    then have "(w, c) \<in> set ?d" using find_Some_set by fastforce
    then show ?thesis by force
  qed
  then show ?thesis using keys_count_first_choices_choices by auto
qed

lemma rcv_winner_loop_in_choices:
  "fst (rcv_winner_loop t tb n) = Inr w \<Longrightarrow> w \<in> choices t"
proof (induction t tb n rule: rcv_winner_loop.induct)
  case (1 tally tie_breaker round_number)
  show ?case
  proof (cases "rcv_round tally tie_breaker")
    case (Inl err)
    then show ?thesis using "1.prems" by simp
  next
    case (Inr r)
    show ?thesis
    proof (cases r)
      case (Winner w' d)
      then have "w' = w" using Inr "1.prems" by simp
      then show ?thesis using Inr Winner rcv_round_Winner_in_choices by simp
    next
      case (Elimination d e LL)
      have r: "rcv_round tally tie_breaker = Inr (Elimination d e LL)"
        using Inr Elimination by simp
      have "fst (rcv_winner_loop (delete_name LL e False) tie_breaker (round_number + 1)) = Inr w"
        using "1.prems" r by simp
      then have "w \<in> choices (delete_name LL e False)"
        by (rule "1.IH" [OF Inr Elimination])
      then show ?thesis using rcv_round_Elimination_decreases(2,3) [OF r] by simp
    qed
  qed
qed

lemma choices_clean_sentinel_free:
  "undervote \<notin> choices (clean t) \<and> overvote \<notin> choices (clean t)"
  unfolding clean_merge choices_merge_ballots
  using sentinel_free_spec_clean_ballot by simp

text \<open>
  C5 as stated fails: the round engine has no check for the sentinel tokens, and on a
  tally that has not been cleaned it returns one as the winner.
\<close>

theorem rcv_round_sentinel_winner:
  "rcv_round [([undervote], 1)] [] = Inr (Winner undervote [(undervote, 1)])
   \<and> rcv_winner [([undervote], 1)] [] = Inr undervote"
  by (simp add: rcv_winner_def rcv_round_def count_first_choices_def)

text \<open>
  C5, amended. A cleaned tally contains no sentinel token, and for every tally in
  which no ballot contains \<open>undervote\<close> or \<open>overvote\<close> (so for every cleaned tally)
  and every tie-break order, a winner returned by the round engine or by the winner
  driver is neither \<open>undervote\<close> nor \<open>overvote\<close>.
\<close>

theorem winner_not_sentinel:
  "(undervote \<notin> choices (clean t0) \<and> overvote \<notin> choices (clean t0))
   \<and> (undervote \<notin> choices t \<and> overvote \<notin> choices t \<longrightarrow>
        (rcv_round t tb = Inr (Winner w d) \<longrightarrow> w \<noteq> undervote \<and> w \<noteq> overvote)
        \<and> (rcv_winner t tb = Inr w \<longrightarrow> w \<noteq> undervote \<and> w \<noteq> overvote))"
proof (intro conjI impI)
  show "undervote \<notin> choices (clean t0)" "overvote \<notin> choices (clean t0)"
    using choices_clean_sentinel_free by simp_all
next
  assume s: "undervote \<notin> choices t \<and> overvote \<notin> choices t"
  {
    assume "rcv_round t tb = Inr (Winner w d)"
    then have "w \<in> choices t" by (rule rcv_round_Winner_in_choices)
    then show "w \<noteq> undervote" "w \<noteq> overvote" using s by auto
  }
  {
    assume "rcv_winner t tb = Inr w"
    then have "w \<in> choices t" unfolding rcv_winner_def by (rule rcv_winner_loop_in_choices)
    then show "w \<noteq> undervote" "w \<noteq> overvote" using s by auto
  }
qed

theorem winner_not_sentinel_witness:
  "undervote \<notin> choices (clean [([''a'', ''b''], 1), ([''b'', ''a''], 1), ([''b'', ''undervote''], 1)])
   \<and> overvote \<notin> choices (clean [([''a'', ''b''], 1), ([''b'', ''a''], 1), ([''b'', ''undervote''], 1)])
   \<and> rcv_winner (clean [([''a'', ''b''], 1), ([''b'', ''a''], 1), ([''b'', ''undervote''], 1)])
        [''a'', ''b''] = Inr ''b''
   \<and> ''b'' \<noteq> undervote \<and> ''b'' \<noteq> overvote"
proof -
  let ?t = "[([''a'', ''b''], 1), ([''b'', ''a''], 1), ([''b'', ''undervote''], 1)] :: tally"
  have w: "rcv_winner (clean ?t) [''a'', ''b''] = Inr ''b''" by code_simp
  show ?thesis
    using winner_not_sentinel [of ?t "clean ?t" "[''a'', ''b'']" "''b''" "[]"] w by blast
qed

lemma convert_tally_to_ballots_fold:
  "fold (\<lambda>(ballot, count) ballots. ballots @ replicate (nat count) ballot) t acc
   = acc @ concat (map (\<lambda>(b, c). replicate (nat c) b) t)"
proof (induction t arbitrary: acc)
  case Nil
  show ?case by simp
next
  case (Cons p t)
  obtain b v where p: "p = (b, v)" by (cases p)
  show ?case by (simp add: p Cons.IH)
qed

lemma convert_tally_to_ballots_concat:
  "convert_tally_to_ballots t = concat (map (\<lambda>(b, c). replicate (nat c) b) t)"
  by (simp add: convert_tally_to_ballots_def convert_tally_to_ballots_fold)

lemma fold_dict_add_replicate:
  "fold (\<lambda>ballot tally. dict_add tally ballot 1) (replicate n b) acc
   = (if n = 0 then acc else dict_add acc b (int n))"
proof (induction n arbitrary: acc)
  case 0
  show ?case by simp
next
  case (Suc n)
  show ?case by (simp add: Suc.IH dict_add_twice del: fold_replicate)
qed

lemma collapse_expand_acc:
  "distinct (map fst (acc @ t)) \<Longrightarrow>
   fold (\<lambda>ballot tally. dict_add tally ballot 1) (convert_tally_to_ballots t) acc
   = acc @ filter (\<lambda>(b, c). 0 < c) t"
proof (induction t arbitrary: acc)
  case Nil
  show ?case by (simp add: convert_tally_to_ballots_concat)
next
  case (Cons p t)
  obtain b v where p: "p = (b, v)" by (cases p)
  have nb: "b \<notin> fst ` set acc" using Cons.prems by (auto simp: p)
  show ?case
  proof (cases "0 < v")
    case True
    have "distinct (map fst ((acc @ [(b, v)]) @ t))" using Cons.prems by (simp add: p)
    then have "fold (\<lambda>ballot tally. dict_add tally ballot 1) (convert_tally_to_ballots t)
                 (acc @ [(b, v)]) = (acc @ [(b, v)]) @ filter (\<lambda>(b, c). 0 < c) t"
      by (rule Cons.IH)
    then show ?thesis using True
      by (simp add: p convert_tally_to_ballots_concat fold_dict_add_replicate dict_add_new [OF nb]
          del: fold_replicate)
  next
    case False
    have "distinct (map fst (acc @ t))" using Cons.prems by (simp add: p)
    then have "fold (\<lambda>ballot tally. dict_add tally ballot 1) (convert_tally_to_ballots t) acc
                 = acc @ filter (\<lambda>(b, c). 0 < c) t"
      by (rule Cons.IH)
    then show ?thesis using False
      by (simp add: p convert_tally_to_ballots_concat fold_dict_add_replicate del: fold_replicate)
  qed
qed

text \<open>
  C7 as stated fails: a ballot whose count is zero is expanded to no ballot at all,
  so collapsing the expansion loses its key.
\<close>

theorem collapse_expand_zero_count:
  "convert_ballots_to_tally (convert_tally_to_ballots [([''a''], 0)]) = []
   \<and> \<not> dict_eq (convert_ballots_to_tally (convert_tally_to_ballots [([''a''], 0)]))
            [([''a''], 0)]"
  by (simp add: convert_ballots_to_tally_def convert_tally_to_ballots_def dict_eq_def)

text \<open>
  C7, amended. For every tally \<open>t\<close> (a dictionary, so with distinct keys) with integer
  counts, collapsing the expansion of \<open>t\<close> yields \<open>t\<close> without the ballots whose count
  is not positive, in the same order; so it yields \<open>t\<close> exactly when every count of
  \<open>t\<close> is a positive integer.
\<close>

theorem collapse_expand_positive:
  assumes "distinct (map fst t)"
  shows "convert_ballots_to_tally (convert_tally_to_ballots t) = filter (\<lambda>(b, c). 0 < c) t
         \<and> ((\<forall>(b, c) \<in> set t. 0 < c) \<longrightarrow>
              convert_ballots_to_tally (convert_tally_to_ballots t) = t)"
proof -
  have eq: "convert_ballots_to_tally (convert_tally_to_ballots t) = filter (\<lambda>(b, c). 0 < c) t"
    using collapse_expand_acc [of "[]" t] assms by (simp add: convert_ballots_to_tally_def)
  moreover have "filter (\<lambda>(b, c). 0 < c) t = t" if "\<forall>(b, c) \<in> set t. 0 < c"
    using that by (intro filter_True) auto
  ultimately show ?thesis by simp
qed

theorem collapse_expand_positive_witness:
  "distinct (map fst [([''a'', ''b''], 2 :: int), ([''c''], 1)])
   \<and> convert_ballots_to_tally (convert_tally_to_ballots [([''a'', ''b''], 2), ([''c''], 1)])
       = [([''a'', ''b''], 2), ([''c''], 1)]"
proof -
  have h: "distinct (map fst [([''a'', ''b''], 2 :: int), ([''c''], 1)])" by simp
  have p: "\<forall>(b, c) \<in> set [([''a'', ''b''], 2 :: int), ([''c''], 1)]. 0 < c" by simp
  show ?thesis
    using collapse_expand_positive [OF h] h p by blast
qed

lemma split_loop_no_sep:
  "sep \<notin> set s \<Longrightarrow> split_loop sep cur s = [cur @ s]"
  by (induction s arbitrary: cur) auto

lemma split_loop_one_sep:
  "count_list s sep = 1 \<Longrightarrow>
   split_loop sep cur s = [cur @ takeWhile (\<lambda>c. c \<noteq> sep) s, tl (dropWhile (\<lambda>c. c \<noteq> sep) s)]"
proof (induction s arbitrary: cur)
  case Nil
  then show ?case by simp
next
  case (Cons c s)
  show ?case
  proof (cases "c = sep")
    case True
    then have "count_list s sep = 0" using Cons.prems by simp
    then have "sep \<notin> set s" by (simp add: count_list_0_iff)
    then show ?thesis using True by (simp add: split_loop_no_sep)
  next
    case False
    then have "count_list s sep = 1" using Cons.prems by simp
    then show ?thesis using False by (simp add: Cons.IH)
  qed
qed

lemma str_split_rank_token:
  "rank_token s \<Longrightarrow>
   str_split s CHR ''-'' = [takeWhile (\<lambda>c. c \<noteq> CHR ''-'') s, spec_candidate s]"
  by (simp add: rank_token_def str_split_def spec_candidate_def split_loop_one_sep)

lemma ordered_candidates_loop_rank_tokens:
  "\<forall>s \<in> set toks. rank_token s \<Longrightarrow>
   ordered_candidates_loop toks acc = Inr (acc @ map spec_candidate toks)"
proof (induction toks arbitrary: acc)
  case Nil
  show ?case by simp
next
  case (Cons s toks)
  then show ?case by (simp add: str_split_rank_token)
qed

lemma ordered_tally_loop_adapted:
  "\<forall>vote \<in> fst ` set tally. \<forall>s \<in> set vote. rank_token s \<Longrightarrow>
   ordered_tally_loop tally acc = Inr (adapted_tally tally acc)"
proof (induction tally arbitrary: acc)
  case Nil
  show ?case by (simp add: adapted_tally_def)
next
  case (Cons p tally)
  obtain vote c where p: "p = (vote, c)" by (cases p)
  have "\<forall>s \<in> set (sort vote). rank_token s" using Cons.prems by (simp add: p)
  then have "ordered_candidates_loop (sort vote) [] = Inr (spec_adapt vote)"
    by (simp add: ordered_candidates_loop_rank_tokens spec_adapt_def)
  moreover have "ordered_tally_loop tally (dict_set acc (spec_adapt vote) c)
     = Inr (adapted_tally tally (dict_set acc (spec_adapt vote) c))"
    using Cons.prems by (intro Cons.IH) (simp add: p)
  ultimately show ?case by (simp add: p adapted_tally_def)
qed

lemma keys_dict_set: "fst ` set (dict_set d k v) = insert k (fst ` set d)"
proof (induction d)
  case Nil
  show ?case by simp
next
  case (Cons q d)
  obtain k' v' where q: "q = (k', v')" by (cases q)
  show ?case using Cons.IH by (cases "k' = k") (auto simp: q)
qed

lemma distinct_dict_set: "distinct (map fst d) \<Longrightarrow> distinct (map fst (dict_set d k v))"
proof (induction d)
  case Nil
  show ?case by simp
next
  case (Cons q d)
  obtain k' v' where q: "q = (k', v')" by (cases q)
  show ?case using Cons keys_dict_set [of d k v] by (cases "k' = k") (auto simp: q)
qed

lemma map_of_dict_set: "map_of (dict_set d k v) = (map_of d)(k \<mapsto> v)"
  by (induction d) (auto simp: fun_eq_iff)

lemma keys_adapted_tally:
  "fst ` set (adapted_tally tally acc) = fst ` set acc \<union> spec_adapt ` fst ` set tally"
proof (induction tally arbitrary: acc)
  case Nil
  show ?case by (simp add: adapted_tally_def)
next
  case (Cons p tally)
  obtain vote c where p: "p = (vote, c)" by (cases p)
  have "adapted_tally (p # tally) acc = adapted_tally tally (dict_set acc (spec_adapt vote) c)"
    by (simp add: adapted_tally_def p)
  then show ?case by (simp add: Cons.IH keys_dict_set p)
qed

lemma distinct_adapted_tally:
  "distinct (map fst acc) \<Longrightarrow> distinct (map fst (adapted_tally tally acc))"
proof (induction tally arbitrary: acc)
  case Nil
  then show ?case by (simp add: adapted_tally_def)
next
  case (Cons p tally)
  obtain vote c where p: "p = (vote, c)" by (cases p)
  have "adapted_tally (p # tally) acc = adapted_tally tally (dict_set acc (spec_adapt vote) c)"
    by (simp add: adapted_tally_def p)
  then show ?case using Cons by (simp add: distinct_dict_set)
qed

lemma map_of_adapted_tally:
  "map_of (adapted_tally tally acc) k =
     (case filter (\<lambda>(v, c). spec_adapt v = k) tally of
        [] \<Rightarrow> map_of acc k
      | x # xs \<Rightarrow> Some (snd (last (x # xs))))"
proof (induction tally arbitrary: acc)
  case Nil
  show ?case by (simp add: adapted_tally_def)
next
  case (Cons p tally)
  obtain vote c where p: "p = (vote, c)" by (cases p)
  have "adapted_tally (p # tally) acc = adapted_tally tally (dict_set acc (spec_adapt vote) c)"
    by (simp add: adapted_tally_def p)
  then show ?case
    by (auto simp: Cons.IH map_of_dict_set p split: list.splits)
qed

lemma sum_list_distinct_keys:
  fixes d :: "('k \<times> int) list"
  shows "distinct (map fst d) \<Longrightarrow> sum_list (map snd d) = (\<Sum>k \<in> fst ` set d. the (map_of d k))"
proof (induction d)
  case Nil
  show ?case by simp
next
  case (Cons q d)
  obtain k v where q: "q = (k, v)" by (cases q)
  have nk: "k \<notin> fst ` set d" and dd: "distinct (map fst d)" using Cons.prems by (auto simp: q)
  have "(\<Sum>k' \<in> fst ` set d. the (map_of (q # d) k')) = (\<Sum>k' \<in> fst ` set d. the (map_of d k'))"
    using nk by (intro sum.cong) (auto simp: q)
  then show ?case using nk Cons.IH [OF dd] by (simp add: q)
qed

lemma sum_weight_of:
  "finite S \<Longrightarrow> f ` fst ` set t \<subseteq> S \<Longrightarrow> (\<Sum>k \<in> S. weight_of f t k) = sum_list (map snd t)"
proof (induction t)
  case Nil
  show ?case by (simp add: weight_of_def)
next
  case (Cons p t)
  obtain b c where p: "p = (b, c)" by (cases p)
  have "(\<Sum>k \<in> S. weight_of f (p # t) k)
        = (\<Sum>k \<in> S. if f b = k then c else 0) + (\<Sum>k \<in> S. weight_of f t k)"
    by (simp add: p weight_of_Cons sum.distrib)
  also have "(\<Sum>k \<in> S. if f b = k then c else 0) = c"
    using Cons.prems by (simp add: p)
  also have "(\<Sum>k \<in> S. weight_of f t k) = sum_list (map snd t)"
    using Cons.prems by (intro Cons.IH) auto
  finally show ?case by (simp add: p)
qed

lemma sum_list_pos:
  fixes xs :: "('a \<times> int) list"
  shows "xs \<noteq> [] \<Longrightarrow> \<forall>x \<in> set xs. 0 < snd x \<Longrightarrow> 0 < sum_list (map snd xs)"
proof (induction xs)
  case Nil
  then show ?case by simp
next
  case (Cons x xs)
  have "0 \<le> sum_list (map snd xs)" using Cons.prems(2) by (intro sum_list_nonneg) auto
  moreover have "0 < snd x" using Cons.prems(2) by simp
  ultimately show ?case by simp
qed

lemma last_le_sum_list:
  fixes xs :: "('a \<times> int) list"
  assumes "xs \<noteq> []" and "\<forall>x \<in> set xs. 0 < snd x"
  shows "snd (last xs) \<le> sum_list (map snd xs)"
    and "2 \<le> length xs \<Longrightarrow> snd (last xs) < sum_list (map snd xs)"
proof -
  have xs: "xs = butlast xs @ [last xs]" using assms(1) by simp
  have s: "sum_list (map snd xs) = sum_list (map snd (butlast xs)) + snd (last xs)"
    by (subst xs) simp
  have pos: "\<forall>x \<in> set (butlast xs). 0 < snd x" using assms(2) by (auto dest: in_set_butlastD)
  then have "0 \<le> sum_list (map snd (butlast xs))" by (intro sum_list_nonneg) auto
  then show "snd (last xs) \<le> sum_list (map snd xs)" using s by simp
  assume "2 \<le> length xs"
  then have "butlast xs \<noteq> []" by (cases xs) auto
  then have "0 < sum_list (map snd (butlast xs))" using pos by (rule sum_list_pos)
  then show "snd (last xs) < sum_list (map snd xs)" using s by simp
qed

text \<open>
  On tokens with exactly one dash the adapter yields, for each ballot, the candidates
  (the text after the dash) of its tokens sorted as strings, character by character,
  and \<open>IRV\<close> returns the one-element sequence holding the winner that the winner
  driver finds for the adapted tally, with the empty tie-break order, and fails where
  the winner driver fails.
\<close>

lemma IRV_one_dash_tokens:
  assumes "\<forall>vote \<in> fst ` set tally. \<forall>s \<in> set vote. rank_token s"
  shows "ordered_tally_loop tally [] = Inr (adapted_tally tally [])
         \<and> fst ` set (adapted_tally tally [])
             = (\<lambda>vote. map spec_candidate (sort vote)) ` fst ` set tally
         \<and> (\<forall>w. IRV tally = Inr [w] \<longleftrightarrow> rcv_winner (adapted_tally tally []) [] = Inr w)
         \<and> (\<forall>err. IRV tally = Inl err \<longleftrightarrow> rcv_winner (adapted_tally tally []) [] = Inl err)
         \<and> (\<forall>ws. IRV tally = Inr ws \<longrightarrow> length ws = 1)"
proof -
  have a: "ordered_tally_loop tally [] = Inr (adapted_tally tally [])"
    using assms by (rule ordered_tally_loop_adapted)
  have "fst ` set (adapted_tally tally []) = spec_adapt ` fst ` set tally"
    using keys_adapted_tally [of tally "[]"] by simp
  also have "\<dots> = (\<lambda>vote. map spec_candidate (sort vote)) ` fst ` set tally"
    by (intro image_cong) (simp_all add: spec_adapt_def)
  finally have "fst ` set (adapted_tally tally [])
             = (\<lambda>vote. map spec_candidate (sort vote)) ` fst ` set tally" .
  then show ?thesis
    using a by (auto simp: IRV_def split: sum.splits)
qed

lemma IRV_one_dash_tokens_example:
  "list_all (\<lambda>(vote, c). list_all rank_token vote)
      [([''2-b'', ''10-a'', ''1-c''], 3 :: int), ([''1-b'', ''2-c''], 2)]
   \<and> ordered_tally_loop [([''2-b'', ''10-a'', ''1-c''], 3), ([''1-b'', ''2-c''], 2)] []
       = Inr [([''c'', ''a'', ''b''], 3), ([''b'', ''c''], 2)]
   \<and> IRV [([''2-b'', ''10-a'', ''1-c''], 3), ([''1-b'', ''2-c''], 2)] = Inr [''c'']"
proof -
  let ?t = "[([''2-b'', ''10-a'', ''1-c''], 3 :: int), ([''1-b'', ''2-c''], 2)]"
  have la: "list_all (\<lambda>(vote, c). list_all rank_token vote) ?t" by code_simp
  then have h: "\<forall>vote \<in> fst ` set ?t. \<forall>s \<in> set vote. rank_token s"
    by (simp add: list_all_iff)
  have a: "adapted_tally ?t [] = [([''c'', ''a'', ''b''], 3), ([''b'', ''c''], 2)]" by code_simp
  have w: "rcv_winner [([''c'', ''a'', ''b''], 3), ([''b'', ''c''], 2)] [] = Inr ''c''"
    by code_simp
  show ?thesis
    using IRV_one_dash_tokens [OF h] la w unfolding a by blast
qed

text \<open>
  C8. A token of the form rank, dash, candidate whose candidate contains a dash is
  split at every dash into more than two pieces, and unpacking them into rank and
  candidate fails: for the ballot of the tokens \<open>1-Smith-Jones\<close> and \<open>2-b\<close>, where the
  candidate sequence is \<open>Smith-Jones\<close>, \<open>b\<close>, the adapter and \<open>IRV\<close> fail with
  ValueError and return no winner.
\<close>

theorem IRV_candidate_with_dash:
  "str_split ''1-Smith-Jones'' CHR ''-'' = [''1'', ''Smith'', ''Jones'']
   \<and> spec_adapt [''1-Smith-Jones'', ''2-b''] = [''Smith-Jones'', ''b'']
   \<and> ordered_candidates_loop (sort [''1-Smith-Jones'', ''2-b'']) [] = Inl ValueError
   \<and> IRV [([''1-Smith-Jones'', ''2-b''], 1)] = Inl ValueError"
  by code_simp

text \<open>
  C10. For every tally of rank-token ballots in which two distinct ballots adapt to
  the same candidate sequence, the adapted tally holds for that sequence the count of
  the last of the ballots adapting to it, in the order of enumeration; when all counts
  are positive this is less than the sum of their counts, and the total weight of the
  adapted tally is less than the total weight of the input tally.
\<close>

theorem IRV_overwrites_merged_ballots:
  assumes "\<forall>vote \<in> fst ` set tally. \<forall>s \<in> set vote. rank_token s"
    and "(v1, c1) \<in> set tally" and "(v2, c2) \<in> set tally" and "v1 \<noteq> v2"
    and "spec_adapt v1 = spec_adapt v2"
  shows "ordered_tally_loop tally [] = Inr (adapted_tally tally [])
         \<and> map_of (adapted_tally tally []) (spec_adapt v1)
             = Some (snd (last (filter (\<lambda>(v, c). spec_adapt v = spec_adapt v1) tally)))
         \<and> ((\<forall>(v, c) \<in> set tally. 0 < c) \<longrightarrow>
              snd (last (filter (\<lambda>(v, c). spec_adapt v = spec_adapt v1) tally))
                < sum_list (map snd (filter (\<lambda>(v, c). spec_adapt v = spec_adapt v1) tally))
              \<and> sum_list (map snd (adapted_tally tally [])) < sum_list (map snd tally))"
proof (intro conjI impI)
  let ?A = "adapted_tally tally []"
  let ?G = "\<lambda>k. filter (\<lambda>(v, c). spec_adapt v = k) tally"
  let ?K = "spec_adapt ` fst ` set tally"
  show "ordered_tally_loop tally [] = Inr ?A"
    using assms(1) by (rule ordered_tally_loop_adapted)
  have in1: "(v1, c1) \<in> set (?G (spec_adapt v1))" and in2: "(v2, c2) \<in> set (?G (spec_adapt v1))"
    using assms(2,3,5) by auto
  have val: "map_of ?A k = Some (snd (last (?G k)))" if gk: "?G k \<noteq> []" for k
    using gk by (simp add: map_of_adapted_tally split: list.splits)
  have ne1: "?G (spec_adapt v1) \<noteq> []" by (metis in1 empty_iff empty_set)
  show "map_of ?A (spec_adapt v1) = Some (snd (last (?G (spec_adapt v1))))"
    using ne1 by (rule val)
  assume pos: "\<forall>(v, c) \<in> set tally. 0 < c"
  have gpos: "\<forall>x \<in> set (?G k). 0 < snd x" for k using pos by auto
  have "\<not> length (?G (spec_adapt v1)) \<le> 1"
  proof
    assume "length (?G (spec_adapt v1)) \<le> 1"
    then obtain x where "set (?G (spec_adapt v1)) \<subseteq> {x}"
      by (cases "?G (spec_adapt v1)") auto
    then show False using in1 in2 assms(4) by auto
  qed
  then have two: "2 \<le> length (?G (spec_adapt v1))" by simp
  show strict: "snd (last (?G (spec_adapt v1))) < sum_list (map snd (?G (spec_adapt v1)))"
    using last_le_sum_list(2) [OF ne1 gpos two] .
  have ne: "?G k \<noteq> []" if kK: "k \<in> ?K" for k
  proof -
    obtain v c where "(v, c) \<in> set tally" "spec_adapt v = k" using kK by auto
    then have "(v, c) \<in> set (?G k)" by simp
    then show ?thesis by (metis empty_iff empty_set)
  qed
  have le: "the (map_of ?A k) \<le> weight_of spec_adapt tally k" if "k \<in> ?K" for k
    using last_le_sum_list(1) [OF ne [OF that] gpos] val [OF ne [OF that]]
    by (simp add: weight_of_def)
  have lt: "the (map_of ?A (spec_adapt v1)) < weight_of spec_adapt tally (spec_adapt v1)"
    using strict val [OF ne1] by (simp add: weight_of_def)
  have k1: "spec_adapt v1 \<in> ?K" using assms(2) by force
  have "sum_list (map snd ?A) = (\<Sum>k \<in> ?K. the (map_of ?A k))"
    using sum_list_distinct_keys [of ?A] distinct_adapted_tally [of "[]" tally]
      keys_adapted_tally [of tally "[]"] by simp
  also have "\<dots> < (\<Sum>k \<in> ?K. weight_of spec_adapt tally k)"
  proof (rule sum_strict_mono_ex1)
    show "finite ?K" by simp
    show "\<forall>k \<in> ?K. the (map_of ?A k) \<le> weight_of spec_adapt tally k" using le by blast
    show "\<exists>k \<in> ?K. the (map_of ?A k) < weight_of spec_adapt tally k" using lt k1 by blast
  qed
  also have "\<dots> = sum_list (map snd tally)"
    by (intro sum_weight_of) auto
  finally show "sum_list (map snd ?A) < sum_list (map snd tally)" .
qed

theorem IRV_overwrites_merged_ballots_witness:
  "list_all (\<lambda>(vote, c). list_all rank_token vote)
      [([''1-a'', ''2-b''], 3 :: int), ([''01-a'', ''02-b''], 2)]
   \<and> spec_adapt [''1-a'', ''2-b''] = spec_adapt [''01-a'', ''02-b'']
   \<and> map_of (adapted_tally [([''1-a'', ''2-b''], 3), ([''01-a'', ''02-b''], 2)] [])
        (spec_adapt [''1-a'', ''2-b'']) = Some 2
   \<and> sum_list (map snd (adapted_tally [([''1-a'', ''2-b''], 3), ([''01-a'', ''02-b''], 2)] []))
       < sum_list (map snd [([''1-a'', ''2-b''], 3 :: int), ([''01-a'', ''02-b''], 2)])"
proof -
  let ?t = "[([''1-a'', ''2-b''], 3 :: int), ([''01-a'', ''02-b''], 2)]"
  have la: "list_all (\<lambda>(vote, c). list_all rank_token vote) ?t" by code_simp
  then have h: "\<forall>vote \<in> fst ` set ?t. \<forall>s \<in> set vote. rank_token s"
    by (simp add: list_all_iff)
  have m1: "([''1-a'', ''2-b''], 3) \<in> set ?t" and m2: "([''01-a'', ''02-b''], 2) \<in> set ?t"
    by simp_all
  have ne: "[''1-a'', ''2-b''] \<noteq> [''01-a'', ''02-b'']" by simp
  have s1: "spec_adapt [''1-a'', ''2-b''] = [''a'', ''b'']" by code_simp
  have s2: "spec_adapt [''01-a'', ''02-b''] = [''a'', ''b'']" by code_simp
  have eq: "spec_adapt [''1-a'', ''2-b''] = spec_adapt [''01-a'', ''02-b'']" by (simp add: s1 s2)
  have pos: "\<forall>(v, c) \<in> set ?t. 0 < c" by simp
  have l: "snd (last (filter (\<lambda>(v, c). spec_adapt v = spec_adapt [''1-a'', ''2-b'']) ?t)) = 2"
    by (simp add: s1 s2)
  show ?thesis
    using IRV_overwrites_merged_ballots [OF h m1 m2 ne eq] la eq pos unfolding l by blast
qed

end
